theory Spec2Isabelle
  imports Main
begin

section \<open>The format-string engine of formatstring.py\<close>

text \<open>
  Python's \<open>str\<close> is modelled by \<open>string\<close>: one \<open>char\<close> per code point, for the
  code points 0 to 255. Paths follow the POSIX flavour of \<open>os.path\<close> (separator \<open>/\<close>,
  \<open>os.extsep\<close> is \<open>.\<close>). An exception is a value \<open>Inl e\<close> of the result.
\<close>

subsection \<open>Errors\<close>

datatype parse_msg =
    ReachedEnd
  | ReachedEndSearching char

datatype apply_msg =
    MissingSeparator string char
  | BeginNotNumeric string
  | EndNotNumeric string
  | IndexNotNumeric string string
  | MissingTimestampFormat

text \<open>
  \<open>FormatParseError\<close> carries the format string, the index and the message;
  \<open>FormatApplyError\<close> the file path and the message. The other three are Python's
  built-in exceptions, which are not \<open>FormatError\<close>s.
\<close>

datatype error =
    FormatParseError string nat parse_msg
  | FormatApplyError string apply_msg
  | TypeError
  | ValueError
  | OSError

definition is_format_error :: "error \<Rightarrow> bool" where
  "is_format_error e =
     (case e of FormatParseError _ _ _ \<Rightarrow> True | FormatApplyError _ _ \<Rightarrow> True | _ \<Rightarrow> False)"

subsection \<open>Built-ins of Python's str\<close>

definition TOK_SPECIAL :: char where "TOK_SPECIAL = CHR ''%''"
definition TOK_COMMA :: char where "TOK_COMMA = CHR '',''"
definition TOK_SEPARATOR :: char where "TOK_SEPARATOR = CHR ''=''"
definition extsep :: char where "extsep = CHR ''.''"
definition sep :: char where "sep = CHR ''/''"

text \<open>The decimal digits \<open>0\<close> to \<open>9\<close>: the characters \<open>int()\<close> reads.\<close>

definition ord :: "char \<Rightarrow> nat" where
  "ord c = of_char c"

definition isdecimal_char :: "char \<Rightarrow> bool" where
  "isdecimal_char c = (ord CHR ''0'' \<le> ord c \<and> ord c \<le> ord CHR ''9'')"

text \<open>
  \<open>str.isdigit\<close> also holds of the superscript digits U+00B2, U+00B3 and U+00B9, which
  \<open>int()\<close> refuses.
\<close>

definition isdigit_char :: "char \<Rightarrow> bool" where
  "isdigit_char c = (isdecimal_char c \<or> c = CHR 0xB2 \<or> c = CHR 0xB3 \<or> c = CHR 0xB9)"

definition isdigit :: "string \<Rightarrow> bool" where
  "isdigit s = (s \<noteq> [] \<and> list_all isdigit_char s)"

definition startswith :: "string \<Rightarrow> string \<Rightarrow> bool" where
  "startswith s p = (take (length p) s = p)"

definition endswith :: "string \<Rightarrow> string \<Rightarrow> bool" where
  "endswith s p = (length p \<le> length s \<and> drop (length s - length p) s = p)"

definition digit_val :: "char \<Rightarrow> int" where
  "digit_val c = int (ord c) - 48"

definition digits_value :: "string \<Rightarrow> int" where
  "digits_value ds = foldl (\<lambda>a c. 10 * a + digit_val c) 0 ds"

text \<open>
  \<open>int(s)\<close>, on the strings the source passes to it: those that went through
  \<open>isnumber\<close> or \<open>isdigit\<close>, an optional \<open>-\<close> and digits.
\<close>

definition py_int :: "string \<Rightarrow> error + int" where
  "py_int s =
     (case s of
        [] \<Rightarrow> Inl ValueError
      | c # r \<Rightarrow>
          if c = CHR ''-'' then
            (if r \<noteq> [] \<and> list_all isdecimal_char r then Inr (- digits_value r)
             else Inl ValueError)
          else if list_all isdecimal_char s then Inr (digits_value s)
          else Inl ValueError)"

text \<open>\<open>s[b:e]\<close> for integers \<open>b\<close> and \<open>e\<close>: the indices are adjusted, then cut.\<close>

definition adjust_index :: "nat \<Rightarrow> int \<Rightarrow> nat" where
  "adjust_index n i =
     (if i < 0 then (if i + int n < 0 then 0 else nat (i + int n))
      else if i \<ge> int n then n else nat i)"

definition py_slice :: "string \<Rightarrow> int \<Rightarrow> int \<Rightarrow> string" where
  "py_slice s b e =
     (let start = adjust_index (length s) b; stop = adjust_index (length s) e
      in if start < stop then take (stop - start) (drop start s) else [])"

text \<open>\<open>s.split(c, 1)\<close> and \<open>s.rsplit(c, 1)\<close> for a separator of one character.\<close>

definition split1 :: "char \<Rightarrow> string \<Rightarrow> string list" where
  "split1 c s =
     (if c \<in> set s
      then [takeWhile (\<lambda>x. x \<noteq> c) s, tl (dropWhile (\<lambda>x. x \<noteq> c) s)]
      else [s])"

definition rsplit1 :: "char \<Rightarrow> string \<Rightarrow> string list" where
  "rsplit1 c s =
     (if c \<in> set s
      then [rev (tl (dropWhile (\<lambda>x. x \<noteq> c) (rev s))), rev (takeWhile (\<lambda>x. x \<noteq> c) (rev s))]
      else [s])"

text \<open>
  \<open>s.split(field)\<close>: the segments between the occurrences of \<open>field\<close>, found from the
  left and not overlapping. An empty separator raises \<open>ValueError\<close>.
\<close>

fun split_from :: "string \<Rightarrow> string \<Rightarrow> string \<Rightarrow> string list" where
  "split_from field cur [] = [cur]"
| "split_from field cur (c # cs) =
     (if field \<noteq> [] \<and> startswith (c # cs) field
      then cur # split_from field [] (drop (length field - 1) cs)
      else split_from field (cur @ [c]) cs)"

definition py_split :: "string \<Rightarrow> string \<Rightarrow> error + string list" where
  "py_split s field = (if field = [] then Inl ValueError else Inr (split_from field [] s))"

text \<open>
  \<open>str.upper\<close> and \<open>str.lower\<close>, character by character: the letters of ASCII and
  those of the code points 192 to 254, \<open>SS\<close> for the sharp s. The two lower-case
  letters whose upper case lies beyond code point 255 (181 and 255) are left as they
  are.
\<close>

definition upper_char :: "char \<Rightarrow> string" where
  "upper_char c =
     (if ord CHR ''a'' \<le> ord c \<and> ord c \<le> ord CHR ''z'' then [char_of (ord c - 32)]
      else if ord c = 223 then ''SS''
      else if 224 \<le> ord c \<and> ord c \<le> 254 \<and> ord c \<noteq> 247 then [char_of (ord c - 32)]
      else [c])"

definition lower_char :: "char \<Rightarrow> string" where
  "lower_char c =
     (if ord CHR ''A'' \<le> ord c \<and> ord c \<le> ord CHR ''Z'' then [char_of (ord c + 32)]
      else if 192 \<le> ord c \<and> ord c \<le> 222 \<and> ord c \<noteq> 215 then [char_of (ord c + 32)]
      else [c])"

definition upper :: "string \<Rightarrow> string" where
  "upper s = concat (map upper_char s)"

definition lower :: "string \<Rightarrow> string" where
  "lower s = concat (map lower_char s)"

text \<open>\<open>str(n)\<close> for a non-negative integer: its decimal digits.\<close>

function str_nat :: "nat \<Rightarrow> string" where
  "str_nat n = (if n < 10 then [char_of (48 + n)] else str_nat (n div 10) @ [char_of (48 + n mod 10)])"
  by pat_completeness auto
termination
  by (relation "measure id") auto

subsection \<open>os.path\<close>

text \<open>\<open>p.rfind(sep) + 1\<close>: the index after the last separator, 0 when there is none.\<close>

definition rfind_succ :: "char \<Rightarrow> string \<Rightarrow> nat" where
  "rfind_succ c p = length p - length (takeWhile (\<lambda>x. x \<noteq> c) (rev p))"

definition rstrip :: "char \<Rightarrow> string \<Rightarrow> string" where
  "rstrip c s = rev (dropWhile (\<lambda>x. x = c) (rev s))"

definition basename :: "string \<Rightarrow> string" where
  "basename p = drop (rfind_succ sep p) p"

definition dirname :: "string \<Rightarrow> string" where
  "dirname p =
     (let head = take (rfind_succ sep p) p
      in if head \<noteq> [] \<and> head \<noteq> replicate (length head) sep then rstrip sep head else head)"

definition path_join :: "string \<Rightarrow> string \<Rightarrow> string" where
  "path_join a b =
     (if startswith b [sep] then b
      else if a = [] \<or> endswith a [sep] then a @ b
      else a @ [sep] @ b)"

subsection \<open>Helpers of the module\<close>

definition isnumber :: "string \<Rightarrow> bool" where
  "isnumber v = (if startswith v ''-'' then isdigit (drop 1 v) else isdigit v)"

definition get_basename :: "string \<Rightarrow> string" where
  "get_basename filepath = (case rsplit1 extsep (basename filepath) of x # _ \<Rightarrow> x | [] \<Rightarrow> [])"

definition get_extension :: "string \<Rightarrow> string" where
  "get_extension filepath =
     (let parts = rsplit1 extsep (basename filepath)
      in if length parts = 2 then last parts else [])"

subsection \<open>The logger\<close>

text \<open>
  Modelled from the spec: the logger. The module \<open>log\<close> that builds it is not among the
  sources, so a call \<open>logger.warning(fmt, *args)\<close> or \<open>logger.error(fmt, *args)\<close> is
  modelled as appending one entry (level, format, arguments) to the log of the operation,
  and as never raising. The calls at trace and debug level are not recorded.
\<close>

datatype level = WARNING | ERROR

datatype log_arg = AStr string | AInt int

type_synonym log_entry = "level \<times> string \<times> log_arg list"

type_synonym 'a logged = "log_entry list \<times> (error + 'a)"

subsection \<open>Tokens\<close>

text \<open>
  A directive is the dict that \<open>parse_format_string\<close> builds; a literal is the
  character itself.
\<close>

record directive =
  token :: char
  field_value :: "string option"
  source_string :: string
  source_index :: nat

datatype tok = Literal char | Directive directive

subsection \<open>The file system\<close>

text \<open>
  What the handlers \<open>H\<close>, \<open>S\<close> and \<open>M\<close> read of a path: the hex digest of the SHA-256
  of its contents, its size, and its modification time formatted by a pattern. \<open>None\<close>
  stands for the \<open>OSError\<close> of \<open>open\<close> or \<open>os.stat\<close>.
\<close>

record env =
  sha256_hexdigest :: "string \<Rightarrow> string option"
  st_size :: "string \<Rightarrow> nat option"
  mtime_strftime :: "string \<Rightarrow> string \<Rightarrow> string option"

subsection \<open>The decorator\<close>

datatype nargs = NoCheck | Exact nat | Between "nat option" "nat option"

definition verify_args :: "nargs \<Rightarrow> nat \<Rightarrow> error + unit" where
  "verify_args n count =
     (case n of
        Exact k \<Rightarrow> if count \<noteq> k then Inl ValueError else Inr ()
      | Between lo hi \<Rightarrow>
          (let argmin = (case lo of None \<Rightarrow> count | Some a \<Rightarrow> a);
               argmax = (case hi of None \<Rightarrow> count | Some b \<Rightarrow> b)
           in if count < argmin \<or> count > argmax then Inl ValueError else Inr ())
      | NoCheck \<Rightarrow> Inr ())"

type_synonym handler = "env \<Rightarrow> string \<Rightarrow> directive \<Rightarrow> string logged"

text \<open>
  The wrapper that \<open>_token\<close> returns and binds to the function's name. Every call in the
  module passes the file path as the only positional argument, so \<open>len(args)\<close> is 1. The
  registry holds the undecorated function, not this wrapper.
\<close>

definition wrapper :: "nargs \<Rightarrow> handler \<Rightarrow> handler" where
  "wrapper n func e filepath d =
     (case verify_args n 1 of Inl err \<Rightarrow> ([], Inl err) | Inr _ \<Rightarrow> func e filepath d)"

subsection \<open>The handlers\<close>

definition tok_percent :: handler where
  "tok_percent e filepath d = ([], Inr [TOK_SPECIAL])"

definition tok_basename :: handler where
  "tok_basename e filepath d = ([], Inr (get_basename filepath))"

definition tok_extsep :: handler where
  "tok_extsep e filepath d = ([], Inr [extsep])"

definition tok_extension :: handler where
  "tok_extension e filepath d = ([], Inr (get_extension filepath))"

definition tok_hash :: handler where
  "tok_hash e filepath d =
     (case sha256_hexdigest e filepath of
        None \<Rightarrow> ([], Inl OSError)
      | Some h \<Rightarrow> ([], Inr (take 8 h)))"

definition tok_size :: handler where
  "tok_size e filepath d =
     (case st_size e filepath of
        None \<Rightarrow> ([], Inl OSError)
      | Some n \<Rightarrow> ([], Inr (str_nat n)))"

text \<open>
  \<open>TOK_COMMA not in field_value\<close> raises \<open>TypeError\<close> when \<open>field_value\<close> is \<open>None\<close>,
  the value of a directive written without parentheses.
\<close>

definition tok_substr :: handler where
  "tok_substr e filepath d =
     (case field_value d of
        None \<Rightarrow> ([], Inl TypeError)
      | Some fv \<Rightarrow>
          if TOK_COMMA \<notin> set fv
          then ([], Inl (FormatApplyError filepath (MissingSeparator fv TOK_COMMA)))
          else
            (case split1 TOK_COMMA fv of
               [begin_str, end_str] \<Rightarrow>
                 if begin_str \<noteq> [] \<and> \<not> isnumber begin_str
                 then ([], Inl (FormatApplyError filepath (BeginNotNumeric begin_str)))
                 else if end_str \<noteq> [] \<and> \<not> isnumber end_str
                 then ([], Inl (FormatApplyError filepath (EndNotNumeric end_str)))
                 else
                   (let name = get_basename filepath in
                    case (if begin_str \<noteq> [] then py_int begin_str else Inr 0) of
                      Inl err \<Rightarrow> ([], Inl err)
                    | Inr begin_pos \<Rightarrow>
                        (case (if end_str \<noteq> [] then py_int end_str
                               else Inr (int (length name))) of
                           Inl err \<Rightarrow> ([], Inl err)
                         | Inr end_pos \<Rightarrow> ([], Inr (py_slice name begin_pos end_pos))))
             | _ \<Rightarrow> ([], Inl ValueError)))"

definition warn_less_than_zero :: "string \<Rightarrow> int \<Rightarrow> string \<Rightarrow> log_entry" where
  "warn_less_than_zero name index fv =
     (WARNING, ''%r: token index %d (for %r) less than zero'', [AStr name, AInt index, AStr fv])"

definition warn_too_big :: "string \<Rightarrow> int \<Rightarrow> string \<Rightarrow> nat \<Rightarrow> log_entry" where
  "warn_too_big name index fv n =
     (WARNING, ''%r: token index %d (for %r) too big; file has %d token%s'',
      [AStr name, AInt index, AStr fv, AInt (int n), AStr (if n = 1 then [] else ''s'')])"

definition warn_zero_length :: log_entry where
  "warn_zero_length = (WARNING, ''interpreting the result as a zero-length string'', [])"

definition tok_tokenize :: handler where
  "tok_tokenize e filepath d =
     (case field_value d of
        None \<Rightarrow> ([], Inl TypeError)
      | Some fv \<Rightarrow>
          if TOK_SEPARATOR \<notin> set fv
          then ([], Inl (FormatApplyError filepath (MissingSeparator fv TOK_SEPARATOR)))
          else
            (case rsplit1 TOK_SEPARATOR fv of
               [field, index_str] \<Rightarrow>
                 if \<not> isdigit index_str
                 then ([], Inl (FormatApplyError filepath (IndexNotNumeric index_str fv)))
                 else
                   (let name = get_basename filepath in
                    case py_split name field of
                      Inl err \<Rightarrow> ([], Inl err)
                    | Inr tokens \<Rightarrow>
                        (case py_int index_str of
                           Inl err \<Rightarrow> ([], Inl err)
                         | Inr n \<Rightarrow>
                             (let index = n - 1 in
                              if index < 0
                              then ([warn_less_than_zero name index fv, warn_zero_length], Inr [])
                              else if index \<ge> int (length tokens)
                              then ([warn_too_big name index fv (length tokens), warn_zero_length],
                                    Inr [])
                              else ([], Inr (tokens ! nat index)))))
             | _ \<Rightarrow> ([], Inl ValueError)))"

text \<open>\<open>U\<close> and \<open>L\<close> call \<open>tok_tokenize\<close> by its name, that is, through its wrapper.\<close>

definition tok_upper :: handler where
  "tok_upper e filepath d =
     (case wrapper (Exact 1) tok_tokenize e filepath d of
        (l, Inl err) \<Rightarrow> (l, Inl err)
      | (l, Inr s) \<Rightarrow> (l, Inr (upper s)))"

definition tok_lower :: handler where
  "tok_lower e filepath d =
     (case wrapper (Exact 1) tok_tokenize e filepath d of
        (l, Inl err) \<Rightarrow> (l, Inl err)
      | (l, Inr s) \<Rightarrow> (l, Inr (lower s)))"

definition tok_modtime :: handler where
  "tok_modtime e filepath d =
     (case field_value d of
        None \<Rightarrow> ([], Inl (FormatApplyError filepath MissingTimestampFormat))
      | Some fv \<Rightarrow>
          (case mtime_strftime e filepath fv of
             None \<Rightarrow> ([], Inl OSError)
           | Some s \<Rightarrow> ([], Inr s)))"

text \<open>The registry, in the order in which the decorators fill it.\<close>

definition TOKENS :: "char \<rightharpoonup> handler" where
  "TOKENS = map_of
     [(TOK_SPECIAL, tok_percent),
      (CHR ''B'', tok_basename),
      (CHR ''.'', tok_extsep),
      (CHR ''E'', tok_extension),
      (CHR ''H'', tok_hash),
      (CHR ''S'', tok_size),
      (CHR ''C'', tok_substr),
      (CHR ''T'', tok_tokenize),
      (CHR ''U'', tok_upper),
      (CHR ''L'', tok_lower),
      (CHR ''M'', tok_modtime)]"

subsection \<open>The lexer\<close>

definition next_char :: "string \<Rightarrow> nat \<Rightarrow> error + (char \<times> nat)" where
  "next_char format_string index =
     (if index + 1 < length format_string
      then Inr (format_string ! (index + 1), index + 1)
      else Inl (FormatParseError format_string index ReachedEnd))"

text \<open>The while loop of \<open>_consume_until\<close>; \<open>None\<close> when it runs off the string.\<close>

function consume_until_loop :: "string \<Rightarrow> nat \<Rightarrow> char \<Rightarrow> nat \<Rightarrow> (string \<times> nat) option" where
  "consume_until_loop format_string index c cur =
     (if cur < length format_string
      then (if format_string ! cur = c
            then Some (drop index (take cur format_string), cur)
            else consume_until_loop format_string index c (cur + 1))
      else None)"
  by pat_completeness auto
termination
  by (relation "measure (\<lambda>(format_string, index, c, cur). length format_string - cur)") auto

definition consume_until :: "string \<Rightarrow> nat \<Rightarrow> char \<Rightarrow> bool \<Rightarrow> error + (string \<times> nat)" where
  "consume_until format_string index c can_recover =
     (case consume_until_loop format_string index c index of
        Some r \<Rightarrow> Inr r
      | None \<Rightarrow>
          if can_recover then Inr ([], index)
          else Inl (FormatParseError format_string index (ReachedEndSearching c)))"

definition consume :: "string \<Rightarrow> nat \<Rightarrow> error + (char \<times> nat \<times> string option)" where
  "consume format_string index =
     (case next_char format_string index of
        Inl err \<Rightarrow> Inl err
      | Inr (nextchar, index1) \<Rightarrow>
          if nextchar = CHR ''(''
          then
            (case consume_until format_string (index1 + 1) CHR '')'' False of
               Inl err \<Rightarrow> Inl err
             | Inr (fv, index2) \<Rightarrow>
                 (case next_char format_string index2 of
                    Inl err \<Rightarrow> Inl err
                  | Inr (nextchar2, index3) \<Rightarrow> Inr (nextchar2, index3, Some fv)))
          else Inr (nextchar, index1, None))"

declare consume_until_loop.simps [simp del]

lemma consume_until_loop_bounds:
  "consume_until_loop format_string index c cur = Some (fv, j) \<Longrightarrow>
     cur \<le> j \<and> j < length format_string"
proof (induction format_string index c cur rule: consume_until_loop.induct)
  case (1 format_string index c cur)
  show ?case
  proof (cases "cur < length format_string \<and> format_string ! cur \<noteq> c")
    case True
    then have "consume_until_loop format_string index c (cur + 1) = Some (fv, j)"
      using "1.prems" by (subst (asm) consume_until_loop.simps) simp
    then have "cur + 1 \<le> j \<and> j < length format_string"
      using "1.IH" True by blast
    then show ?thesis by simp
  next
    case False
    then show ?thesis
      using "1.prems" by (subst (asm) consume_until_loop.simps) (auto split: if_splits)
  qed
qed

lemma consume_index:
  "consume format_string index = Inr (c, j, fv) \<Longrightarrow> index < j \<and> j < length format_string"
  unfolding consume_def next_char_def consume_until_def
  by (auto split: if_splits option.splits sum.splits prod.splits
           dest!: consume_until_loop_bounds)

text \<open>
  The while loop of \<open>parse_format_string\<close>: \<open>tokens.append\<close> adds at the end, and the
  index stored in a directive is the one of its code character.
\<close>

function parse_loop :: "string \<Rightarrow> nat \<Rightarrow> tok list \<Rightarrow> error + tok list" where
  "parse_loop format_string index tokens =
     (if index < length format_string
      then
        (let char = format_string ! index in
         if char = TOK_SPECIAL
         then
           (case consume format_string index of
              Inl err \<Rightarrow> Inl err
            | Inr (sequence, index1, fv) \<Rightarrow>
                parse_loop format_string (index1 + 1)
                  (tokens @ [Directive \<lparr>token = sequence, field_value = fv,
                     source_string = format_string, source_index = index1\<rparr>]))
         else parse_loop format_string (index + 1) (tokens @ [Literal char]))
      else Inr tokens)"
  by pat_completeness auto
termination parse_loop
proof (relation "measure (\<lambda>(format_string, index, tokens). length format_string - index)")
  show "wf (measure (\<lambda>(format_string, index, tokens). length format_string - index))"
    by simp
next
  fix format_string :: string and index :: nat and tokens :: "tok list"
    and x x2 sequence y index1 fv
  assume "index < length format_string" "consume format_string index = Inr x2"
    "(sequence, y) = x2" "(index1, fv) = y"
  then have "index < index1 \<and> index1 < length format_string"
    using consume_index [of format_string index sequence index1 fv] by simp
  then show "((format_string, index1 + 1,
             tokens @ [Directive \<lparr>token = sequence, field_value = fv,
                source_string = format_string, source_index = index1\<rparr>]),
            format_string, index, tokens)
           \<in> measure (\<lambda>(format_string, index, tokens). length format_string - index)"
    by auto
next
  fix format_string :: string and index :: nat and tokens :: "tok list" and x
  assume "index < length format_string"
  then show "((format_string, index + 1, tokens @ [Literal x]), format_string, index, tokens)
           \<in> measure (\<lambda>(format_string, index, tokens). length format_string - index)"
    by simp
qed

definition parse_format_string :: "string \<Rightarrow> error + tok list" where
  "parse_format_string format_string = parse_loop format_string 0 []"

subsection \<open>The evaluator\<close>

definition err_invalid_token :: "directive \<Rightarrow> log_entry" where
  "err_invalid_token d =
     (ERROR, ''invalid format token %r (obtained via %r at %d)'',
      [AStr [token d], AStr (source_string d), AInt (int (source_index d))])"

text \<open>\<open>apply_token\<close> returns \<open>None\<close> when the code is not in the registry.\<close>

definition apply_token :: "env \<Rightarrow> string \<Rightarrow> directive \<Rightarrow> (string option) logged" where
  "apply_token e filepath d =
     (case TOKENS (token d) of
        None \<Rightarrow> ([err_invalid_token d], Inr None)
      | Some func \<Rightarrow>
          (case func e filepath d of
             (l, Inl err) \<Rightarrow> (l, Inl err)
           | (l, Inr result) \<Rightarrow> (l, Inr (Some result))))"

text \<open>
  The for loop of \<open>format_path\<close> over the tokens, with the list \<open>output\<close>. The log of
  an operation that raises is the log up to the raise. The third branch of the source
  (a token that is neither a string nor a dict) has no value of type \<open>tok\<close>.
\<close>

fun format_loop :: "env \<Rightarrow> string \<Rightarrow> tok list \<Rightarrow> string list \<Rightarrow> (string list) logged" where
  "format_loop e filepath [] output = ([], Inr output)"
| "format_loop e filepath (Literal c # ts) output = format_loop e filepath ts (output @ [[c]])"
| "format_loop e filepath (Directive d # ts) output =
     (case apply_token e filepath d of
        (l, Inl err) \<Rightarrow> (l, Inl err)
      | (l, Inr result) \<Rightarrow>
          (case format_loop e filepath ts
                  (case result of None \<Rightarrow> output | Some r \<Rightarrow> output @ [r]) of
             (l', res) \<Rightarrow> (l @ l', res)))"

text \<open>The filename fragment: \<open>"".join(output)\<close> for the tokens of the format string.\<close>

definition format_fragment :: "env \<Rightarrow> string \<Rightarrow> string \<Rightarrow> string logged" where
  "format_fragment e filepath format_string =
     (case parse_format_string format_string of
        Inl err \<Rightarrow> ([], Inl err)
      | Inr tokens \<Rightarrow>
          (case format_loop e filepath tokens [] of
             (l, Inl err) \<Rightarrow> (l, Inl err)
           | (l, Inr output) \<Rightarrow> (l, Inr (concat output))))"

definition format_path :: "env \<Rightarrow> string \<Rightarrow> string \<Rightarrow> string logged" where
  "format_path e filepath format_string =
     (case format_fragment e filepath format_string of
        (l, Inl err) \<Rightarrow> (l, Inl err)
      | (l, Inr fragment) \<Rightarrow> (l, Inr (path_join (dirname filepath) fragment)))"

section \<open>Properties\<close>

text \<open>A file system without any file, for the closed instances below.\<close>

definition no_files :: env where
  "no_files =
     \<lparr>sha256_hexdigest = (\<lambda>p. None), st_size = (\<lambda>p. None), mtime_strftime = (\<lambda>p f. None)\<rparr>"

subsection \<open>The loop over the tokens\<close>

lemma format_loop_append:
  "format_loop e filepath (xs @ ys) out =
     (case format_loop e filepath xs out of
        (l, Inl err) \<Rightarrow> (l, Inl err)
      | (l, Inr out1) \<Rightarrow> (case format_loop e filepath ys out1 of (l', res) \<Rightarrow> (l @ l', res)))"
proof (induction xs arbitrary: out)
  case Nil
  then show ?case by (simp split: prod.splits)
next
  case (Cons x xs)
  show ?case
  proof (cases x)
    case (Literal c)
    then show ?thesis using Cons.IH by simp
  next
    case (Directive d)
    then show ?thesis
      using Cons.IH by (simp split: prod.splits sum.splits option.splits)
  qed
qed

lemma TOKENS_Q: "TOKENS CHR ''Q'' = None"
  by (simp add: TOKENS_def TOK_SPECIAL_def)

subsection \<open>C1: a directive whose code is not in the registry\<close>

text \<open>
  C1. For every file path and every token sequence that contains a directive whose code
  is not in the registry: once the tokens before it are evaluated, the evaluator logs one
  error-level entry that carries the code, the source string and the source index of the
  directive, adds nothing to the output for it, and goes on with the remaining tokens;
  the result of the whole sequence is the result of the remaining tokens on the output
  so far (the directive itself raises nothing).
\<close>

theorem unknown_directive_is_dropped:
  assumes "TOKENS (token d) = None"
    and "format_loop e filepath pre out = (l1, Inr out1)"
    and "format_loop e filepath post out1 = (l2, res)"
  shows "apply_token e filepath d =
           ([(ERROR, ''invalid format token %r (obtained via %r at %d)'',
              [AStr [token d], AStr (source_string d), AInt (int (source_index d))])],
            Inr None)
         \<and> format_loop e filepath (pre @ Directive d # post) out =
           (l1 @ [(ERROR, ''invalid format token %r (obtained via %r at %d)'',
              [AStr [token d], AStr (source_string d), AInt (int (source_index d))])] @ l2,
            res)"
proof -
  have a: "apply_token e filepath d = ([err_invalid_token d], Inr None)"
    using assms(1) by (simp add: apply_token_def)
  have "format_loop e filepath (Directive d # post) out1 = (err_invalid_token d # l2, res)"
    using a assms(3) by simp
  then have "format_loop e filepath (pre @ Directive d # post) out =
      (l1 @ err_invalid_token d # l2, res)"
    using assms(2) by (simp add: format_loop_append)
  then show ?thesis using a by (simp add: err_invalid_token_def)
qed

theorem unknown_directive_is_dropped_witness:
  "TOKENS CHR ''Q'' = None
   \<and> format_loop no_files ''foo.txt'' [Literal CHR ''a''] [] = ([], Inr [''a''])
   \<and> format_loop no_files ''foo.txt'' [Literal CHR ''b''] [''a''] = ([], Inr [''a'', ''b''])
   \<and> format_loop no_files ''foo.txt''
        [Literal CHR ''a'',
         Directive \<lparr>token = CHR ''Q'', field_value = None, source_string = ''a%Qb'',
           source_index = 2\<rparr>,
         Literal CHR ''b''] [] =
       ([(ERROR, ''invalid format token %r (obtained via %r at %d)'',
          [AStr ''Q'', AStr ''a%Qb'', AInt 2])], Inr [''a'', ''b''])"
  using unknown_directive_is_dropped [of
      "\<lparr>token = CHR ''Q'', field_value = None, source_string = ''a%Qb'', source_index = 2\<rparr>"
      no_files "''foo.txt''" "[Literal CHR ''a'']" "[]" "[]" "[''a'']" "[Literal CHR ''b'']" "[]"
      "Inr [''a'', ''b'']"]
  by (simp add: TOKENS_Q)

subsection \<open>C3: the failures that leave \<open>format_path\<close>\<close>

text \<open>
  C3. The specification has \<open>format_path\<close> return a string or fail with a parse
  error or an apply error, also for a known directive with a missing or degenerate
  argument. The code at such inputs: \<open>%C\<close> and \<open>%T\<close> written without an argument raise \<open>TypeError\<close>,
  and \<open>%(=1)T\<close>, whose field is empty, raises \<open>ValueError\<close>, as does
  \<open>int()\<close> on a superscript digit that \<open>str.isdigit\<close> let through; neither is a
  \<open>FormatError\<close>. The sibling handler of \<open>M\<close> tests for the missing argument and
  raises \<open>FormatApplyError\<close>.
\<close>

theorem format_path_other_failures:
  "format_path no_files ''foo.txt'' ''%C'' = ([], Inl TypeError)
   \<and> format_path no_files ''foo.txt'' ''%T'' = ([], Inl TypeError)
   \<and> format_path no_files ''foo-bar.gz'' ''%(=1)T'' = ([], Inl ValueError)
   \<and> format_path no_files ''foo-bar.gz'' (''%(-='' @ [CHR 0xB2] @ '')T'') = ([], Inl ValueError)
   \<and> format_path no_files ''foo.txt'' ''%M'' =
       ([], Inl (FormatApplyError ''foo.txt'' MissingTimestampFormat))
   \<and> \<not> is_format_error TypeError \<and> \<not> is_format_error ValueError"
  by code_simp

lemma TOKENS_C: "TOKENS CHR ''C'' = Some tok_substr"
  by (simp add: TOKENS_def TOK_SPECIAL_def)

lemma parse_a_C_b:
  "parse_format_string ''a%(x)Cb'' =
     Inr ([Literal CHR ''a''] @
          Directive \<lparr>token = CHR ''C'', field_value = Some ''x'', source_string = ''a%(x)Cb'',
            source_index = 5\<rparr> # [Literal CHR ''b''])"
  by code_simp

lemma tok_substr_x:
  "tok_substr no_files ''foo.txt''
     \<lparr>token = CHR ''C'', field_value = Some ''x'', source_string = ''a%(x)Cb'', source_index = 5\<rparr> =
   ([], Inl (FormatApplyError ''foo.txt'' (MissingSeparator ''x'' CHR '','')))"
  by code_simp

subsection \<open>C2: an apply error ends the evaluation\<close>

text \<open>
  C2. If the handler of a directive raises \<open>FormatApplyError\<close> while a token sequence is
  evaluated against a file path (the tokens before it having been evaluated), the error
  is the result of \<open>apply_token\<close>, of the loop over the whole sequence, whatever tokens
  follow, and of \<open>format_path\<close> for a format string with these tokens: no string is
  produced.
\<close>

theorem apply_error_aborts_format:
  assumes "parse_format_string format_string = Inr (pre @ Directive d # post)"
    and "format_loop e filepath pre [] = (l1, Inr out1)"
    and "TOKENS (token d) = Some func"
    and "func e filepath d = (l, Inl (FormatApplyError p m))"
  shows "apply_token e filepath d = (l, Inl (FormatApplyError p m))
         \<and> format_loop e filepath (pre @ Directive d # post) [] =
             (l1 @ l, Inl (FormatApplyError p m))
         \<and> format_path e filepath format_string = (l1 @ l, Inl (FormatApplyError p m))"
proof -
  have a: "apply_token e filepath d = (l, Inl (FormatApplyError p m))"
    using assms(3,4) by (simp add: apply_token_def)
  then have "format_loop e filepath (Directive d # post) out1 = (l, Inl (FormatApplyError p m))"
    by simp
  then have b: "format_loop e filepath (pre @ Directive d # post) [] =
      (l1 @ l, Inl (FormatApplyError p m))"
    using assms(2) by (simp add: format_loop_append)
  then have "format_path e filepath format_string = (l1 @ l, Inl (FormatApplyError p m))"
    using assms(1) by (simp add: format_path_def format_fragment_def)
  then show ?thesis using a b by simp
qed

theorem apply_error_aborts_format_witness:
  "parse_format_string ''a%(x)Cb'' =
     Inr ([Literal CHR ''a''] @
          Directive \<lparr>token = CHR ''C'', field_value = Some ''x'', source_string = ''a%(x)Cb'',
            source_index = 5\<rparr> # [Literal CHR ''b''])
   \<and> format_loop no_files ''foo.txt'' [Literal CHR ''a''] [] = ([], Inr [''a''])
   \<and> TOKENS CHR ''C'' = Some tok_substr
   \<and> tok_substr no_files ''foo.txt''
        \<lparr>token = CHR ''C'', field_value = Some ''x'', source_string = ''a%(x)Cb'',
          source_index = 5\<rparr> =
       ([], Inl (FormatApplyError ''foo.txt'' (MissingSeparator ''x'' CHR '','')))
   \<and> format_path no_files ''foo.txt'' ''a%(x)Cb'' =
       ([], Inl (FormatApplyError ''foo.txt'' (MissingSeparator ''x'' CHR '','')))"
  using apply_error_aborts_format [of "''a%(x)Cb''" "[Literal CHR ''a'']"
      "\<lparr>token = CHR ''C'', field_value = Some ''x'', source_string = ''a%(x)Cb'', source_index = 5\<rparr>"
      "[Literal CHR ''b'']" no_files "''foo.txt''" "[]" "[''a'']" tok_substr "[]" "''foo.txt''"
      "MissingSeparator ''x'' CHR '',''"]
    parse_a_C_b tok_substr_x TOKENS_C
  by simp

subsection \<open>The lexer on a string and on its extensions\<close>

declare parse_loop.simps [simp del]

lemma consume_until_loop_iff:
  "consume_until_loop fs index c cur = Some (fv, j) \<longleftrightarrow>
     cur \<le> j \<and> j < length fs \<and> fs ! j = c \<and> (\<forall>k. cur \<le> k \<and> k < j \<longrightarrow> fs ! k \<noteq> c)
     \<and> fv = drop index (take j fs)"
proof (induction fs index c cur rule: consume_until_loop.induct)
  case (1 fs index c cur)
  show ?case
  proof (cases "cur < length fs")
    case False
    then show ?thesis by (subst consume_until_loop.simps) auto
  next
    case True
    show ?thesis
    proof (cases "fs ! cur = c")
      case hit: True
      have "consume_until_loop fs index c cur = Some (drop index (take cur fs), cur)"
        using True hit by (subst consume_until_loop.simps) simp
      moreover have "(cur \<le> j \<and> j < length fs \<and> fs ! j = c
          \<and> (\<forall>k. cur \<le> k \<and> k < j \<longrightarrow> fs ! k \<noteq> c)) \<longleftrightarrow> j = cur"
      proof
        assume a: "cur \<le> j \<and> j < length fs \<and> fs ! j = c
          \<and> (\<forall>k. cur \<le> k \<and> k < j \<longrightarrow> fs ! k \<noteq> c)"
        show "j = cur"
        proof (rule ccontr)
          assume "j \<noteq> cur"
          then have "cur < j" using a by simp
          then show False using a hit by blast
        qed
      next
        assume "j = cur"
        then show "cur \<le> j \<and> j < length fs \<and> fs ! j = c
          \<and> (\<forall>k. cur \<le> k \<and> k < j \<longrightarrow> fs ! k \<noteq> c)"
          using True hit by auto
      qed
      ultimately show ?thesis by auto
    next
      case miss: False
      have step: "consume_until_loop fs index c cur = consume_until_loop fs index c (cur + 1)"
        using True miss by (subst consume_until_loop.simps) simp
      have "(cur \<le> j \<and> (\<forall>k. cur \<le> k \<and> k < j \<longrightarrow> fs ! k \<noteq> c) \<and> fs ! j = c) \<longleftrightarrow>
            (cur + 1 \<le> j \<and> (\<forall>k. cur + 1 \<le> k \<and> k < j \<longrightarrow> fs ! k \<noteq> c) \<and> fs ! j = c)"
        using miss
        by (metis Suc_eq_plus1 Suc_leD Suc_leI le_neq_implies_less)
      then show ?thesis
        using "1.IH" [OF True miss] step by auto
    qed
  qed
qed

lemma consume_until_loop_None:
  "(\<forall>k. cur \<le> k \<and> k < length fs \<longrightarrow> fs ! k \<noteq> c) \<Longrightarrow> consume_until_loop fs index c cur = None"
proof -
  assume a: "\<forall>k. cur \<le> k \<and> k < length fs \<longrightarrow> fs ! k \<noteq> c"
  have "consume_until_loop fs index c cur \<noteq> Some (fv, j)" for fv j
    using a by (auto simp add: consume_until_loop_iff)
  then show ?thesis by (cases "consume_until_loop fs index c cur") auto
qed

lemma consume_until_loop_append:
  assumes "consume_until_loop fs index c cur = Some r"
  shows "consume_until_loop (fs @ rest) index c cur = Some r"
proof -
  obtain fv j where r: "r = (fv, j)" by (cases r)
  have h: "cur \<le> j" "j < length fs" "fs ! j = c" "\<forall>k. cur \<le> k \<and> k < j \<longrightarrow> fs ! k \<noteq> c"
    "fv = drop index (take j fs)"
    using assms unfolding r consume_until_loop_iff by blast+
  have "j < length (fs @ rest)" using h(2) by simp
  moreover have "(fs @ rest) ! j = c" using h(2,3) by (simp add: nth_append)
  moreover have "\<forall>k. cur \<le> k \<and> k < j \<longrightarrow> (fs @ rest) ! k \<noteq> c"
    using h(2,4) by (simp add: nth_append)
  moreover have "fv = drop index (take j (fs @ rest))" using h(2,5) by simp
  ultimately have "consume_until_loop (fs @ rest) index c cur = Some (fv, j)"
    unfolding consume_until_loop_iff using h(1) by blast
  then show ?thesis by (simp add: r)
qed

lemma next_char_append:
  "next_char fs i = Inr r \<Longrightarrow> next_char (fs @ rest) i = Inr r"
  by (auto simp add: next_char_def nth_append split: if_splits)

lemma consume_until_append:
  assumes "consume_until fs index c False = Inr r"
  shows "consume_until (fs @ rest) index c False = Inr r"
proof -
  have "consume_until_loop fs index c index = Some r"
    using assms by (simp add: consume_until_def split: option.splits)
  then have "consume_until_loop (fs @ rest) index c index = Some r"
    by (rule consume_until_loop_append)
  then show ?thesis by (simp add: consume_until_def)
qed

lemma consume_append:
  assumes "consume fs i = Inr r"
  shows "consume (fs @ rest) i = Inr r"
proof -
  obtain c1 i1 where n1: "next_char fs i = Inr (c1, i1)"
    using assms by (cases "next_char fs i") (auto simp add: consume_def)
  have n1': "next_char (fs @ rest) i = Inr (c1, i1)"
    using n1 by (rule next_char_append)
  show ?thesis
  proof (cases "c1 = CHR ''(''")
    case False
    then show ?thesis using assms n1 n1' by (simp add: consume_def)
  next
    case True
    obtain fv i2 where u: "consume_until fs (i1 + 1) CHR '')'' False = Inr (fv, i2)"
      using assms n1 True
      by (cases "consume_until fs (i1 + 1) CHR '')'' False") (auto simp add: consume_def)
    obtain c2 i3 where n2: "next_char fs i2 = Inr (c2, i3)"
      using assms n1 True u by (cases "next_char fs i2") (auto simp add: consume_def)
    have r: "r = (c2, i3, Some fv)"
      using assms n1 True u n2 by (simp add: consume_def)
    have "consume_until (fs @ rest) (i1 + 1) CHR '')'' False = Inr (fv, i2)"
      using u by (rule consume_until_append)
    moreover have "next_char (fs @ rest) i2 = Inr (c2, i3)"
      using n2 by (rule next_char_append)
    ultimately show ?thesis using n1' True r by (simp add: consume_def)
  qed
qed

lemma parse_loop_reaches_end:
  assumes "parse_loop pre i acc = Inr ts" and "i \<le> length pre"
  shows "\<exists>new. \<forall>acc2. parse_loop (pre @ rest) i acc2 =
           parse_loop (pre @ rest) (length pre) (acc2 @ new)"
  using assms
proof (induction "length pre - i" arbitrary: i acc rule: less_induct)
  case less
  show ?case
  proof (cases "i < length pre")
    case False
    then have "i = length pre" using less.prems(2) by simp
    then have "\<forall>acc2. parse_loop (pre @ rest) i acc2 =
           parse_loop (pre @ rest) (length pre) (acc2 @ [])" by simp
    then show ?thesis by blast
  next
    case True
    show ?thesis
    proof (cases "pre ! i = TOK_SPECIAL")
      case lit: False
      have "parse_loop pre i acc = parse_loop pre (i + 1) (acc @ [Literal (pre ! i)])"
        using True lit by (subst parse_loop.simps) simp
      then have "parse_loop pre (i + 1) (acc @ [Literal (pre ! i)]) = Inr ts"
        using less.prems(1) by simp
      moreover have "length pre - (i + 1) < length pre - i" using True by simp
      moreover have "i + 1 \<le> length pre" using True by simp
      ultimately obtain new where new: "\<forall>acc2. parse_loop (pre @ rest) (i + 1) acc2 =
           parse_loop (pre @ rest) (length pre) (acc2 @ new)"
        using less.hyps by blast
      have "parse_loop (pre @ rest) i acc2 =
          parse_loop (pre @ rest) (length pre) (acc2 @ (Literal (pre ! i) # new))" for acc2
      proof -
        have "parse_loop (pre @ rest) i acc2 =
            parse_loop (pre @ rest) (i + 1) (acc2 @ [Literal (pre ! i)])"
          using True lit by (subst parse_loop.simps) (simp add: nth_append)
        then show ?thesis using new by simp
      qed
      then show ?thesis by blast
    next
      case dir: True
      obtain c j fv where cons: "consume pre i = Inr (c, j, fv)"
        using less.prems(1) True dir
        by (subst (asm) parse_loop.simps) (auto split: sum.splits)
      let ?d = "\<lambda>fs. Directive \<lparr>token = c, field_value = fv, source_string = fs, source_index = j\<rparr>"
      have "parse_loop pre i acc = parse_loop pre (j + 1) (acc @ [?d pre])"
        using True dir cons by (subst parse_loop.simps) simp
      then have "parse_loop pre (j + 1) (acc @ [?d pre]) = Inr ts"
        using less.prems(1) by simp
      moreover have jb: "i < j \<and> j < length pre" using cons by (rule consume_index)
      then have "length pre - (j + 1) < length pre - i" "j + 1 \<le> length pre" by auto
      ultimately obtain new where new: "\<forall>acc2. parse_loop (pre @ rest) (j + 1) acc2 =
           parse_loop (pre @ rest) (length pre) (acc2 @ new)"
        using less.hyps by blast
      have cons': "consume (pre @ rest) i = Inr (c, j, fv)"
        using cons by (rule consume_append)
      have "parse_loop (pre @ rest) i acc2 =
          parse_loop (pre @ rest) (length pre) (acc2 @ (?d (pre @ rest) # new))" for acc2
      proof -
        have "parse_loop (pre @ rest) i acc2 =
            parse_loop (pre @ rest) (j + 1) (acc2 @ [?d (pre @ rest)])"
          using True dir cons' by (subst parse_loop.simps) (simp add: nth_append)
        then show ?thesis using new by simp
      qed
      then show ?thesis by blast
    qed
  qed
qed

subsection \<open>The lexer at an incomplete directive\<close>

lemma parse_loop_bare_marker:
  "parse_loop (pre @ ''%'') (length pre) acc =
     Inl (FormatParseError (pre @ ''%'') (length pre) ReachedEnd)"
  by (subst parse_loop.simps) (simp add: TOK_SPECIAL_def consume_def next_char_def)

lemma parse_loop_unterminated:
  assumes "CHR '')'' \<notin> set a"
  shows "parse_loop (pre @ ''%('' @ a) (length pre) acc =
     Inl (FormatParseError (pre @ ''%('' @ a) (length pre + 2) (ReachedEndSearching CHR '')''))"
proof -
  let ?fs = "pre @ ''%('' @ a"
  have n: "next_char ?fs (length pre) = Inr (CHR ''('', length pre + 1)"
    by (simp add: next_char_def nth_append)
  have "\<forall>k. length pre + 2 \<le> k \<and> k < length ?fs \<longrightarrow> ?fs ! k \<noteq> CHR '')''"
  proof (intro allI impI)
    fix k assume k: "length pre + 2 \<le> k \<and> k < length ?fs"
    then have "?fs ! k = a ! (k - length pre - 2)"
      by (auto simp add: nth_append nth_Cons')
    moreover have "k - length pre - 2 < length a" using k by auto
    ultimately show "?fs ! k \<noteq> CHR '')''" using assms by (metis nth_mem)
  qed
  then have "consume_until_loop ?fs (length pre + 2) CHR '')'' (length pre + 2) = None"
    by (rule consume_until_loop_None)
  then have "consume_until ?fs (length pre + 1 + 1) CHR '')'' False =
      Inl (FormatParseError ?fs (length pre + 2) (ReachedEndSearching CHR '')''))"
    by (simp add: consume_until_def)
  then have "consume ?fs (length pre) =
      Inl (FormatParseError ?fs (length pre + 2) (ReachedEndSearching CHR '')''))"
    using n by (simp add: consume_def)
  then show ?thesis
    by (subst parse_loop.simps) (simp add: TOK_SPECIAL_def nth_append)
qed

lemma consume_until_argument:
  assumes "CHR '')'' \<notin> set a"
  shows "consume_until (pre @ ''%('' @ a @ CHR '')'' # rest) (length pre + 2) CHR '')'' False =
     Inr (a, length pre + 2 + length a)"
proof -
  let ?fs = "pre @ ''%('' @ a @ CHR '')'' # rest"
  let ?j = "length pre + 2 + length a"
  have fs: "?fs = (pre @ ''%('' @ a) @ CHR '')'' # rest" by simp
  have j: "?j = length (pre @ ''%('' @ a)" by simp
  have at: "?fs ! ?j = CHR '')''"
    unfolding fs j by (rule nth_append_length)
  have tk: "take ?j ?fs = pre @ ''%('' @ a"
    unfolding fs j by simp
  have "\<forall>k. length pre + 2 \<le> k \<and> k < ?j \<longrightarrow> ?fs ! k \<noteq> CHR '')''"
  proof (intro allI impI)
    fix k assume k: "length pre + 2 \<le> k \<and> k < ?j"
    then have "?fs ! k = a ! (k - length pre - 2)"
      by (auto simp add: nth_append nth_Cons')
    moreover have "k - length pre - 2 < length a" using k by auto
    ultimately show "?fs ! k \<noteq> CHR '')''" using assms by (metis nth_mem)
  qed
  then have "consume_until_loop ?fs (length pre + 2) CHR '')'' (length pre + 2) =
      Some (drop (length pre + 2) (take ?j ?fs), ?j)"
    unfolding consume_until_loop_iff using at by simp
  moreover have "drop (length pre + 2) (take ?j ?fs) = a"
    unfolding tk by simp
  ultimately show ?thesis by (simp add: consume_until_def)
qed

lemma parse_loop_missing_code:
  assumes "CHR '')'' \<notin> set a"
  shows "parse_loop (pre @ ''%('' @ a @ '')'') (length pre) acc =
     Inl (FormatParseError (pre @ ''%('' @ a @ '')'') (length pre + 2 + length a) ReachedEnd)"
proof -
  let ?fs = "pre @ ''%('' @ a @ '')''"
  have n: "next_char ?fs (length pre) = Inr (CHR ''('', length pre + 1)"
    by (simp add: next_char_def nth_append)
  have u: "consume_until ?fs (length pre + 1 + 1) CHR '')'' False =
      Inr (a, length pre + 2 + length a)"
    using consume_until_argument [OF assms, of pre "[]"] by simp
  have "next_char ?fs (length pre + 2 + length a) =
      Inl (FormatParseError ?fs (length pre + 2 + length a) ReachedEnd)"
    by (simp add: next_char_def)
  then have "consume ?fs (length pre) =
      Inl (FormatParseError ?fs (length pre + 2 + length a) ReachedEnd)"
    using n u by (simp add: consume_def)
  then show ?thesis
    by (subst parse_loop.simps) (simp add: TOK_SPECIAL_def nth_append)
qed

lemma parse_ab: "parse_format_string ''ab'' = Inr [Literal CHR ''a'', Literal CHR ''b'']"
  by code_simp

subsection \<open>C7: a format string that ends in an incomplete directive\<close>

text \<open>
  C7. Let \<open>pre\<close> be a format string that the lexer reads to its end. Then a format
  string that continues \<open>pre\<close> with an incomplete directive makes \<open>parse_format_string\<close>
  raise \<open>FormatParseError\<close>, which carries the format string and an index, and no
  token list is returned: for a bare \<open>%\<close> the index is the one of the \<open>%\<close>; for a
  \<open>(\<close> with no \<open>)\<close> after it, the index is the one after the \<open>(\<close>, where the search
  began; for an argument \<open>(...)\<close> with no code character after it, the index is the
  one of the \<open>)\<close>.
\<close>

theorem incomplete_directive_is_parse_error:
  assumes "parse_format_string pre = Inr ts" and "CHR '')'' \<notin> set a"
  shows "parse_format_string (pre @ ''%'') =
           Inl (FormatParseError (pre @ ''%'') (length pre) ReachedEnd)
         \<and> parse_format_string (pre @ ''%('' @ a) =
           Inl (FormatParseError (pre @ ''%('' @ a) (length pre + 2)
                 (ReachedEndSearching CHR '')''))
         \<and> parse_format_string (pre @ ''%('' @ a @ '')'') =
           Inl (FormatParseError (pre @ ''%('' @ a @ '')'') (length pre + 2 + length a)
                 ReachedEnd)"
proof -
  have p: "parse_loop pre 0 [] = Inr ts"
    using assms(1) by (simp add: parse_format_string_def)
  have reach: "\<exists>new. parse_loop (pre @ rest) 0 [] = parse_loop (pre @ rest) (length pre) new"
    for rest
    using parse_loop_reaches_end [OF p, of rest] by (metis append_Nil le0)
  show ?thesis
    unfolding parse_format_string_def
    using reach [of "''%''"] reach [of "''%('' @ a"] reach [of "''%('' @ a @ '')''"]
      parse_loop_bare_marker [of pre] parse_loop_unterminated [OF assms(2), of pre]
      parse_loop_missing_code [OF assms(2), of pre]
    by metis
qed

theorem incomplete_directive_is_parse_error_witness:
  "parse_format_string ''ab'' = Inr [Literal CHR ''a'', Literal CHR ''b'']
   \<and> CHR '')'' \<notin> set ''xy''
   \<and> parse_format_string ''ab%'' = Inl (FormatParseError ''ab%'' 2 ReachedEnd)
   \<and> parse_format_string ''ab%(xy'' =
       Inl (FormatParseError ''ab%(xy'' 4 (ReachedEndSearching CHR '')''))
   \<and> parse_format_string ''ab%(xy)'' = Inl (FormatParseError ''ab%(xy)'' 6 ReachedEnd)"
  using incomplete_directive_is_parse_error [of "''ab''" "[Literal CHR ''a'', Literal CHR ''b'']" "''xy''"]
    parse_ab
  by simp

subsection \<open>Literal tokens, and paths without directory\<close>

lemma parse_loop_literals:
  assumes "\<forall>k. i \<le> k \<and> k < length fs \<longrightarrow> fs ! k \<noteq> TOK_SPECIAL"
  shows "parse_loop fs i acc = Inr (acc @ map Literal (drop i fs))"
  using assms
proof (induction "length fs - i" arbitrary: i acc rule: less_induct)
  case less
  show ?case
  proof (cases "i < length fs")
    case False
    then show ?thesis by (subst parse_loop.simps) simp
  next
    case True
    have lit: "fs ! i \<noteq> TOK_SPECIAL" using less.prems True by auto
    have "parse_loop fs (i + 1) (acc @ [Literal (fs ! i)]) =
        Inr ((acc @ [Literal (fs ! i)]) @ map Literal (drop (i + 1) fs))"
      using less.hyps [of "i + 1" "acc @ [Literal (fs ! i)]"] less.prems True by auto
    moreover have "drop i fs = fs ! i # drop (i + 1) fs"
      using True by (simp add: Cons_nth_drop_Suc)
    ultimately show ?thesis
      using True lit by (subst parse_loop.simps) simp
  qed
qed

lemma format_loop_literals:
  "format_loop e filepath (map Literal s) out = ([], Inr (out @ map (\<lambda>c. [c]) s))"
  by (induction s arbitrary: out) simp_all

lemma concat_singletons: "concat (map (\<lambda>c. [c]) s) = s"
  by (induction s) simp_all

lemma dirname_no_sep:
  assumes "sep \<notin> set p"
  shows "dirname p = []"
proof -
  have "\<forall>x\<in>set (rev p). x \<noteq> sep" using assms by auto
  then have tw: "takeWhile (\<lambda>x. x \<noteq> sep) (rev p) = rev p"
    by (rule takeWhile_eq_all_conv [THEN iffD2])
  have "rfind_succ sep p = 0" unfolding rfind_succ_def tw by simp
  then show ?thesis by (simp add: dirname_def)
qed

lemma path_join_empty: "path_join [] b = b"
  by (simp add: path_join_def)

subsection \<open>C8: a format string without directive\<close>

text \<open>
  C8. For every string \<open>s\<close> that contains no \<open>%\<close> and every file path: each character
  of \<open>s\<close> is lexed as a literal token and copied, so the evaluated filename fragment is
  \<open>s\<close>, nothing is logged, and \<open>format_path\<close> returns \<open>s\<close> joined to the directory of
  the path; for a path without directory this is \<open>s\<close> itself.
\<close>

theorem literal_format_is_identity:
  assumes "TOK_SPECIAL \<notin> set s"
  shows "parse_format_string s = Inr (map Literal s)
         \<and> format_loop e filepath (map Literal s) [] = ([], Inr (map (\<lambda>c. [c]) s))
         \<and> format_fragment e filepath s = ([], Inr s)
         \<and> format_path e filepath s = ([], Inr (path_join (dirname filepath) s))
         \<and> (sep \<notin> set filepath \<longrightarrow> format_path e filepath s = ([], Inr s))"
proof -
  have "\<forall>k. 0 \<le> k \<and> k < length s \<longrightarrow> s ! k \<noteq> TOK_SPECIAL"
    using assms by (metis nth_mem)
  then have p: "parse_format_string s = Inr (map Literal s)"
    unfolding parse_format_string_def using parse_loop_literals [of 0 s "[]"] by simp
  have l: "format_loop e filepath (map Literal s) [] = ([], Inr (map (\<lambda>c. [c]) s))"
    by (simp add: format_loop_literals)
  have f: "format_fragment e filepath s = ([], Inr s)"
    using p l by (simp add: format_fragment_def concat_singletons)
  have q: "format_path e filepath s = ([], Inr (path_join (dirname filepath) s))"
    using f by (simp add: format_path_def)
  show ?thesis
    using p l f q by (simp add: dirname_no_sep path_join_empty)
qed

theorem literal_format_is_identity_witness:
  "TOK_SPECIAL \<notin> set ''bar''
   \<and> sep \<notin> set ''foo''
   \<and> parse_format_string ''bar'' = Inr [Literal CHR ''b'', Literal CHR ''a'', Literal CHR ''r'']
   \<and> format_fragment no_files ''foo'' ''bar'' = ([], Inr ''bar'')
   \<and> format_path no_files ''foo'' ''bar'' = ([], Inr ''bar'')"
proof -
  have a: "TOK_SPECIAL \<notin> set ''bar''" by (simp add: TOK_SPECIAL_def)
  have b: "sep \<notin> set ''foo''" by (simp add: sep_def)
  note t = literal_format_is_identity [OF a, of no_files "''foo''"]
  have c: "parse_format_string ''bar'' = Inr (map Literal ''bar'')" using t by blast
  have d: "format_fragment no_files ''foo'' ''bar'' = ([], Inr ''bar'')" using t by blast
  have "format_path no_files ''foo'' ''bar'' = ([], Inr ''bar'')" using t b by blast
  then show ?thesis using a b c d by simp
qed

subsection \<open>Directory and last component of a joined path\<close>









subsection \<open>C9: the directory of the result\<close>



subsection \<open>Format strings of one directive\<close>







subsection \<open>C10: an argument given to a directive that takes none\<close>



subsection \<open>The arguments of the handlers\<close>










subsection \<open>C5: malformed arguments of \<open>C\<close>, \<open>T\<close>, \<open>U\<close> and \<open>L\<close>\<close>



subsection \<open>Strings of decimal digits\<close>








subsection \<open>C6: a field index out of range\<close>




subsection \<open>Bounds and slices\<close>











subsection \<open>C4: the slice of \<open>%C\<close>\<close>




end
